theory Spec2Isabelle
  imports Complex_Main "HOL-Library.Multiset" "HOL-Library.Word"
begin

section \<open>JavaScript values and browser storage\<close>

text \<open>
  The web client is TypeScript running in a browser. Values that travel through
  \<open>JSON.parse\<close> or are typed \<open>any\<close> are modelled by \<open>jsval\<close>; an
  object is the list of its own properties, each name once.
\<close>

datatype jsval =
    JUndefined
  | JNull
  | JBool bool
  | JNum real
  | JStr string
  | JArr "jsval list"
  | JObj "(string \<times> jsval) list"

datatype js_error = SyntaxError | TypeError | InvalidCharacterError

text \<open>
  Property read \<open>v.k\<close> for the property names the client reads (\<open>type\<close>,
  \<open>data\<close>, \<open>timestamp\<close>, \<open>encrypted_content\<close>, \<open>iv\<close>): reading from \<open>null\<close> or \<open>undefined\<close> throws a
  TypeError, a missing property reads as \<open>undefined\<close>, and the primitive wrappers and
  arrays have no property of these names.
\<close>

fun get_prop :: "jsval \<Rightarrow> string \<Rightarrow> js_error + jsval" where
  "get_prop JUndefined k = Inl TypeError"
| "get_prop JNull k = Inl TypeError"
| "get_prop (JObj ps) k = Inr (case map_of ps k of None \<Rightarrow> JUndefined | Some v \<Rightarrow> v)"
| "get_prop v k = Inr JUndefined"

text \<open>
  The object literal handed to \<open>JSON.stringify\<close>: a property whose value is
  \<open>undefined\<close> is left out of the text, so it is left out here.
\<close>

definition object_literal :: "(string \<times> jsval) list \<Rightarrow> jsval" where
  "object_literal ps = JObj (filter (\<lambda>p. snd p \<noteq> JUndefined) ps)"

type_synonym local_storage = "string \<rightharpoonup> string"

definition getItem :: "string \<Rightarrow> local_storage \<Rightarrow> string option" where
  "getItem k ls = ls k"

definition setItem :: "string \<Rightarrow> string \<Rightarrow> local_storage \<Rightarrow> local_storage" where
  "setItem k v ls = ls(k \<mapsto> v)"

definition removeItem :: "string \<Rightarrow> local_storage \<Rightarrow> local_storage" where
  "removeItem k ls = ls(k := None)"

text \<open>JavaScript truthiness of a \<open>string | null\<close>: \<open>null\<close> and the empty string are falsy.\<close>

fun truthy :: "string option \<Rightarrow> bool" where
  "truthy None = False"
| "truthy (Some s) = (s \<noteq> [])"

section \<open>AuthProvider (contexts/AuthContext)\<close>

text \<open>The React state of \<open>AuthProvider\<close>; \<open>user\<close> is typed \<open>any | null\<close>.\<close>

record auth_state =
  user :: jsval
  deviceId :: "string option"
  isAuthenticated :: bool
  loading :: bool

text \<open>
  \<open>logout\<close>: three \<open>localStorage.removeItem\<close> calls, then the three state setters.
  The call of \<open>EncryptionService.clearKey\<close> is commented out in the source.
\<close>

definition logout :: "local_storage \<times> auth_state \<Rightarrow> local_storage \<times> auth_state" where
  "logout p =
     (let ls = fst p; a = snd p;
          ls1 = removeItem ''access_token'' ls;
          ls2 = removeItem ''user_id'' ls1;
          ls3 = removeItem ''device_id'' ls2
      in (ls3, a\<lparr>user := JNull, deviceId := None, isAuthenticated := False\<rparr>))"

section \<open>EncryptionService: key storage\<close>

text \<open>
  A key is kept in \<open>localStorage\<close> under \<open>encryption_key\<close> as the JSON text of its
  JWK export. \<open>generateKey\<close> receives the outcome of \<open>crypto.subtle.generateKey\<close>
  and \<open>exportKey\<close>: an exception, or the fresh key with the text of its export, which
  it stores. \<open>getKey\<close> also receives the import (\<open>JSON.parse\<close> followed by
  \<open>crypto.subtle.importKey\<close>), which may throw.
\<close>

definition generateKey ::
    "js_error + 'k \<times> string \<Rightarrow> local_storage \<Rightarrow> (js_error + 'k) \<times> local_storage" where
  "generateKey fresh ls =
     (case fresh of
        Inl e \<Rightarrow> (Inl e, ls)
      | Inr kt \<Rightarrow> (Inr (fst kt), setItem ''encryption_key'' (snd kt) ls))"

definition getKey :: "(string \<Rightarrow> js_error + 'k) \<Rightarrow> js_error + 'k \<times> string \<Rightarrow> local_storage
    \<Rightarrow> (js_error + 'k) \<times> local_storage" where
  "getKey importKey fresh ls =
     (case getItem ''encryption_key'' ls of
        None \<Rightarrow> generateKey fresh ls
      | Some storedKey \<Rightarrow>
          if truthy (Some storedKey) then (importKey storedKey, ls)
          else generateKey fresh ls)"

definition clearKey :: "local_storage \<Rightarrow> local_storage" where
  "clearKey ls = removeItem ''encryption_key'' ls"

section \<open>WebSocketProvider (contexts/WebSocketContext)\<close>

text \<open>
  Modelled from the spec: the causes of a connection close that the server's close codes
  distinguish (the server is not among the sources). The browser hands the close event
  to \<open>ws.onclose\<close>; the handler of the source takes no argument.
\<close>

datatype close_cause = NormalClosure | AuthenticationFailure | HeartbeatTimeout | ServerShutdown

text \<open>
  The state that \<open>connect\<close> and the handlers it installs read and write:
  \<^item> \<open>useAuth\<close>: the values of \<open>isAuthenticated\<close> and \<open>deviceId\<close> that the closure
    of \<open>connect\<close> captured;
  \<^item> \<open>localStorage\<close>, and \<open>WS_URL\<close> of lib/api;
  \<^item> the browser: \<open>WebSocket_throws url\<close> is the exception that \<open>new WebSocket(url)\<close>
    throws, if it throws one; \<open>subtle_importKey\<close> and \<open>subtle_generateKey\<close> are the
    outcomes of importing a stored key and of generating and exporting a fresh one;
  \<^item> the React state \<open>isConnected\<close>, \<open>lastUpdate\<close> and the refs \<open>wsRef\<close>,
    \<open>reconnectTimeoutRef\<close>, \<open>reconnectAttempts\<close>;
  \<^item> three logs of the effects on the outside: the sockets created, the delays handed to
    \<open>setTimeout\<close>, and the objects sent with \<open>ws.send(JSON.stringify(...))\<close>.
  A socket is identified by its URL, a timer by its position in the log, a key by a name.
\<close>

record ws_client =
  useAuth :: auth_state
  localStorage :: local_storage
  WS_URL :: string
  WebSocket_throws :: "string \<Rightarrow> js_error option"
  subtle_importKey :: "string \<Rightarrow> js_error + string"
  subtle_generateKey :: "js_error + string \<times> string"
  isConnected :: bool
  lastUpdate :: jsval
  wsRef :: "string option"
  reconnectTimeoutRef :: "nat option"
  reconnectAttempts :: nat
  opened :: "string list"
  scheduled :: "nat list"
  sent :: "jsval list"

definition getWebSocketURL :: "string \<Rightarrow> string \<Rightarrow> string" where
  "getWebSocketURL ws_url token = ws_url @ ''/ws/clipboard?token='' @ token"

text \<open>
  \<open>new WebSocket(url)\<close> either throws or yields a socket; \<open>connect\<close> catches and
  logs whatever it throws.
\<close>

definition new_WebSocket :: "ws_client \<Rightarrow> string \<Rightarrow> js_error + string" where
  "new_WebSocket c url = (case WebSocket_throws c url of Some e \<Rightarrow> Inl e | None \<Rightarrow> Inr url)"

definition connect :: "ws_client \<Rightarrow> ws_client" where
  "connect c =
     (if \<not> isAuthenticated (useAuth c) \<or> \<not> truthy (deviceId (useAuth c)) then c
      else case getItem ''access_token'' (localStorage c) of
             None \<Rightarrow> c
           | Some token \<Rightarrow>
               if \<not> truthy (Some token) then c
               else (case new_WebSocket c (getWebSocketURL (WS_URL c) token) of
                       Inl e \<Rightarrow> c
                     | Inr ws \<Rightarrow> c\<lparr>wsRef := Some ws, opened := opened c @ [ws]\<rparr>))"

definition onopen :: "ws_client \<Rightarrow> ws_client" where
  "onopen c = c\<lparr>isConnected := True, reconnectAttempts := 0\<rparr>"

text \<open>
  \<open>ws.onmessage\<close>, given the outcome of \<open>JSON.parse(event.data)\<close> and run to its
  end. Every exception is caught and logged. In the \<open>clipboard_update\<close> branch, after
  \<open>setLastUpdate(message.data)\<close>, the arguments \<open>message.data.encrypted_content\<close> and
  \<open>message.data.iv\<close> are read and \<open>EncryptionService.decrypt\<close> begins with
  \<open>getKey\<close>, which stores a fresh key when none is stored; the decryption itself and
  the write to the system clipboard act outside this state.
\<close>

definition onmessage :: "js_error + jsval \<Rightarrow> ws_client \<Rightarrow> ws_client" where
  "onmessage parsed c =
     (case parsed of
        Inl e \<Rightarrow> c
      | Inr message \<Rightarrow>
          (case get_prop message ''type'' of
             Inl e \<Rightarrow> c
           | Inr t \<Rightarrow>
               if t = JStr ''clipboard_update'' then
                 (case get_prop message ''data'' of
                    Inl e \<Rightarrow> c
                  | Inr d \<Rightarrow>
                      (case get_prop d ''encrypted_content'' of
                         Inl e \<Rightarrow> c\<lparr>lastUpdate := d\<rparr>
                       | Inr encrypted \<Rightarrow>
                           (case get_prop d ''iv'' of
                              Inl e \<Rightarrow> c\<lparr>lastUpdate := d\<rparr>
                            | Inr iv \<Rightarrow>
                                c\<lparr>lastUpdate := d,
                                  localStorage :=
                                    snd (getKey (subtle_importKey c) (subtle_generateKey c)
                                           (localStorage c))\<rparr>)))
               else if t = JStr ''ping'' then
                 (case get_prop message ''timestamp'' of
                    Inl e \<Rightarrow> c
                  | Inr ts \<Rightarrow>
                      c\<lparr>sent := sent c @
                          [object_literal [(''type'', JStr ''pong''), (''timestamp'', ts)]]\<rparr>)
               else c))"

text \<open>The delay of \<open>ws.onclose\<close>: \<open>Math.min(1000 * Math.pow(2, attempts), 30000)\<close>.\<close>

definition reconnect_delay :: "nat \<Rightarrow> nat" where
  "reconnect_delay attempts = min (1000 * 2 ^ attempts) 30000"

definition onclose :: "close_cause \<Rightarrow> ws_client \<Rightarrow> ws_client" where
  "onclose ev c =
     (let c1 = c\<lparr>isConnected := False, wsRef := None\<rparr>
      in if isAuthenticated (useAuth c1) \<and> reconnectAttempts c1 < 10 then
           let delay = reconnect_delay (reconnectAttempts c1)
           in c1\<lparr>reconnectTimeoutRef := Some (length (scheduled c1)),
                  scheduled := scheduled c1 @ [delay]\<rparr>
         else c1)"

text \<open>The callback handed to \<open>setTimeout\<close>: count the attempt, then \<open>connect()\<close>.\<close>

definition reconnect_callback :: "ws_client \<Rightarrow> ws_client" where
  "reconnect_callback c = connect (c\<lparr>reconnectAttempts := reconnectAttempts c + 1\<rparr>)"

text \<open>
  One failed connection: the socket closes (for whatever cause) without \<open>onopen\<close> in
  between, and the reconnect timer fires. \<open>consecutive_failures n\<close> is \<open>n\<close> of them in
  a row.
\<close>

definition failed_attempt :: "close_cause \<Rightarrow> ws_client \<Rightarrow> ws_client" where
  "failed_attempt ev c = reconnect_callback (onclose ev c)"

fun consecutive_failures :: "close_cause list \<Rightarrow> ws_client \<Rightarrow> ws_client" where
  "consecutive_failures [] c = c"
| "consecutive_failures (ev # evs) c = consecutive_failures evs (failed_attempt ev c)"

section \<open>EncryptionService: Base64 transport encoding\<close>

text \<open>
  A JavaScript string is a sequence of 16-bit code units, a \<open>Uint8Array\<close> a sequence
  of bytes. \<open>String.fromCharCode\<close> of a byte is the code unit of the same value;
  storing a code unit into a \<open>Uint8Array\<close> keeps its low eight bits.
\<close>

type_synonym js_string = "16 word list"
type_synonym byte_array = "8 word list"

definition fromCharCode :: "8 word \<Rightarrow> 16 word" where
  "fromCharCode b = ucast b"

definition toUint8 :: "16 word \<Rightarrow> 8 word" where
  "toUint8 u = ucast u"

text \<open>
  The browser's \<open>btoa\<close> and \<open>atob\<close>, after the HTML standard. The Base64 alphabet:
  \<open>A-Z\<close> (65..90), \<open>a-z\<close> (97..122), \<open>0-9\<close> (48..57), \<open>+\<close> (43), \<open>/\<close> (47), with
  \<open>=\<close> (61) as padding.
\<close>

definition b64_char :: "nat \<Rightarrow> 16 word" where
  "b64_char i =
     (if i < 26 then of_nat (65 + i)
      else if i < 52 then of_nat (97 + (i - 26))
      else if i < 62 then of_nat (48 + (i - 52))
      else if i = 62 then 43 else 47)"

definition b64_index :: "16 word \<Rightarrow> nat option" where
  "b64_index u =
     (let n = unat u
      in if 65 \<le> n \<and> n \<le> 90 then Some (n - 65)
         else if 97 \<le> n \<and> n \<le> 122 then Some (n - 97 + 26)
         else if 48 \<le> n \<and> n \<le> 57 then Some (n - 48 + 52)
         else if n = 43 then Some 62
         else if n = 47 then Some 63
         else None)"

text \<open>Three bytes make four six-bit groups; one or two trailing bytes make two or three.\<close>

fun b64_sextets :: "nat list \<Rightarrow> nat list" where
  "b64_sextets [] = []"
| "b64_sextets [a] = [a div 4, (a mod 4) * 16]"
| "b64_sextets [a, b] = [a div 4, (a mod 4) * 16 + b div 16, (b mod 16) * 4]"
| "b64_sextets (a # b # c # bs) =
     a div 4 # ((a mod 4) * 16 + b div 16) # ((b mod 16) * 4 + c div 64) # c mod 64
       # b64_sextets bs"

definition b64_padding :: "nat \<Rightarrow> js_string" where
  "b64_padding n = replicate ((3 - n mod 3) mod 3) 61"

definition b64_encode :: "nat list \<Rightarrow> js_string" where
  "b64_encode bs = map b64_char (b64_sextets bs) @ b64_padding (length bs)"

text \<open>\<open>btoa\<close> throws an InvalidCharacterError for a code unit above 255.\<close>

definition btoa :: "js_string \<Rightarrow> js_error + js_string" where
  "btoa s =
     (if list_ex (\<lambda>u. 255 < unat u) s then Inl InvalidCharacterError
      else Inr (b64_encode (map unat s)))"

text \<open>
  \<open>atob\<close> is the standard's forgiving decoder: ASCII whitespace is removed; when the length
  is then a multiple of four, one or two trailing \<open>=\<close> are removed; a length of remainder
  one and any character outside the alphabet are failures; the six-bit groups are then
  read 24 bits at a time, and of a rest of 12 or 18 bits the last 4 or 2 are discarded.
\<close>

definition ascii_whitespace :: "16 word \<Rightarrow> bool" where
  "ascii_whitespace u = (u = 9 \<or> u = 10 \<or> u = 12 \<or> u = 13 \<or> u = 32)"

definition strip_padding :: "js_string \<Rightarrow> js_string" where
  "strip_padding d =
     (if length d mod 4 = 0 then
        (if 2 \<le> length d \<and> last d = 61 \<and> last (butlast d) = 61 then butlast (butlast d)
         else if d \<noteq> [] \<and> last d = 61 then butlast d
         else d)
      else d)"

fun b64_octets :: "nat list \<Rightarrow> nat list" where
  "b64_octets (i # j # k # l # r) =
     (i * 4 + j div 16) # ((j mod 16) * 16 + k div 4) # ((k mod 4) * 64 + l) # b64_octets r"
| "b64_octets [i, j, k] = [i * 4 + j div 16, (j mod 16) * 16 + k div 4]"
| "b64_octets [i, j] = [i * 4 + j div 16]"
| "b64_octets r = []"

fun those_indices :: "js_string \<Rightarrow> nat list option" where
  "those_indices [] = Some []"
| "those_indices (u # us) =
     (case b64_index u of
        None \<Rightarrow> None
      | Some i \<Rightarrow> (case those_indices us of None \<Rightarrow> None | Some r \<Rightarrow> Some (i # r)))"

definition atob :: "js_string \<Rightarrow> js_error + js_string" where
  "atob s =
     (let d = strip_padding (filter (\<lambda>u. \<not> ascii_whitespace u) s)
      in if length d mod 4 = 1 then Inl InvalidCharacterError
         else case those_indices d of
                None \<Rightarrow> Inl InvalidCharacterError
              | Some ix \<Rightarrow> Inr (map of_nat (b64_octets ix)))"

text \<open>
  \<open>arrayBufferToBase64\<close>: the loop appends \<open>String.fromCharCode(bytes[i])\<close> to
  \<open>binary\<close> for \<open>i = 0 .. byteLength - 1\<close>, then \<open>btoa(binary)\<close>.
\<close>

function fromCharCode_loop :: "byte_array \<Rightarrow> nat \<Rightarrow> js_string \<Rightarrow> js_string" where
  "fromCharCode_loop bytes i binary =
     (if i < length bytes
      then fromCharCode_loop bytes (i + 1) (binary @ [fromCharCode (bytes ! i)])
      else binary)"
  by pat_completeness auto
termination
  by (relation "measure (\<lambda>(bytes, i, binary). length bytes - i)") auto

definition arrayBufferToBase64 :: "byte_array \<Rightarrow> js_error + js_string" where
  "arrayBufferToBase64 buffer = btoa (fromCharCode_loop buffer 0 [])"

text \<open>
  \<open>base64ToArrayBuffer\<close>: \<open>atob\<close>, then a zero-filled \<open>Uint8Array(binary.length)\<close>
  whose element \<open>i\<close> is set to \<open>binary.charCodeAt(i)\<close>.
\<close>

function charCodeAt_loop :: "js_string \<Rightarrow> nat \<Rightarrow> byte_array \<Rightarrow> byte_array" where
  "charCodeAt_loop binary i bytes =
     (if i < length binary
      then charCodeAt_loop binary (i + 1) (bytes[i := toUint8 (binary ! i)])
      else bytes)"
  by pat_completeness auto
termination
  by (relation "measure (\<lambda>(binary, i, bytes). length binary - i)") auto

definition base64ToArrayBuffer :: "js_string \<Rightarrow> js_error + byte_array" where
  "base64ToArrayBuffer base64 =
     (case atob base64 of
        Inl e \<Rightarrow> Inl e
      | Inr binary \<Rightarrow> Inr (charCodeAt_loop binary 0 (replicate (length binary) 0)))"

section \<open>Database: the clipboard history and its cleanup trigger\<close>

text \<open>
  A row of \<open>clipboard_items\<close>. The trigger reads three columns: the primary key
  \<open>id\<close>, the owner \<open>user_id\<close> (NOT NULL) and \<open>created_at\<close>, which defaults to
  \<open>NOW()\<close> and may be NULL. \<open>clipboard_row\<close> adds the remaining columns; a nullable
  column holds an option.
\<close>

record clipboard_item =
  item_id :: nat
  user_id :: nat
  created_at :: "int option"

record clipboard_row = clipboard_item +
  device_ref :: "nat option"
  encrypted_content :: string
  iv :: string
  content_hash :: string
  content_type :: "string option"
  content_size :: int
  image_format :: "string option"
  image_width :: "int option"
  image_height :: "int option"

datatype sql_error =
    StringDataRightTruncation
  | NumericValueOutOfRange
  | NotNullViolation
  | CheckViolation
  | UniqueViolation
  | ForeignKeyViolation








text \<open>
  Assignment to a \<open>VARCHAR(n)\<close> column: a longer value is an error unless the excess is
  all spaces, which are then cut off. Assignment to an \<open>INTEGER\<close> column: the value
  must fit 32 bits. NULL passes both.
\<close>

fun varchar :: "nat \<Rightarrow> string option \<Rightarrow> sql_error + string option" where
  "varchar n None = Inr None"
| "varchar n (Some v) =
     (if length v \<le> n then Inr (Some v)
      else if list_all (\<lambda>ch. ch = CHR '' '') (drop n v) then Inr (Some (take n v))
      else Inl StringDataRightTruncation)"

fun integer_column :: "int option \<Rightarrow> sql_error + int option" where
  "integer_column None = Inr None"
| "integer_column (Some v) =
     (if - 2147483648 \<le> v \<and> v \<le> 2147483647 then Inr (Some v)
      else Inl NumericValueOutOfRange)"










section \<open>Server side: deduplicator, registry and dispatcher\<close>

text \<open>
  Modelled from the spec: the Fingerprint Deduplicator (section 4.2); the server that
  implements it is not among the sources. The FingerprintWindow maps (user, fingerprint)
  to the last-seen timestamp; \<open>shouldAccept\<close> rejects when an entry exists whose
  timestamp is within the retention horizon of \<open>now\<close>, and otherwise records
  (user, fingerprint, now) and accepts. Times are in seconds.
\<close>

type_synonym ('u, 'f) fingerprint_window = "'u \<times> 'f \<rightharpoonup> int"

definition default_horizon :: int where
  "default_horizon = 60"

definition shouldAccept ::
    "int \<Rightarrow> 'u \<Rightarrow> 'f \<Rightarrow> int \<Rightarrow> ('u, 'f) fingerprint_window
      \<Rightarrow> bool \<times> ('u, 'f) fingerprint_window" where
  "shouldAccept horizon usr fingerprint now w =
     (case w (usr, fingerprint) of
        None \<Rightarrow> (True, w((usr, fingerprint) \<mapsto> now))
      | Some t \<Rightarrow>
          if now - t < horizon then (False, w)
          else (True, w((usr, fingerprint) \<mapsto> now)))"

text \<open>A run of calls, each \<open>(user, fingerprint, now)\<close>, threading the window.\<close>

fun shouldAccept_calls ::
    "int \<Rightarrow> ('u \<times> 'f \<times> int) list \<Rightarrow> ('u, 'f) fingerprint_window
      \<Rightarrow> ('u, 'f) fingerprint_window" where
  "shouldAccept_calls horizon [] w = w"
| "shouldAccept_calls horizon ((u, f, t) # cs) w =
     shouldAccept_calls horizon cs (snd (shouldAccept horizon u f t w))"

text \<open>
  Modelled from the spec: the DeviceConnection and the Connection Registry (sections 3
  and 4.1); the server is not among the sources. The RegistrySet maps a user to the
  connections registered for it; an unknown user has none. \<open>register\<close> inserts or
  replaces the connection keyed by (user, device id) and reports the superseded
  connections; \<open>unregister\<close> removes the entry if present; \<open>listLive\<close> returns a
  snapshot.
\<close>

record ('u, 'd, 't) device_connection =
  device_id :: 'd
  owner :: 'u
  connected_since :: int
  last_heartbeat :: int
  transport :: 't

type_synonym ('u, 'd, 't) registry_set = "'u \<Rightarrow> ('u, 'd, 't) device_connection list"

definition empty_registry :: "('u, 'd, 't) registry_set" where
  "empty_registry = (\<lambda>u. [])"

definition register ::
    "'u \<Rightarrow> ('u, 'd, 't) device_connection \<Rightarrow> ('u, 'd, 't) registry_set
      \<Rightarrow> ('u, 'd, 't) device_connection list \<times> ('u, 'd, 't) registry_set" where
  "register usr conn reg =
     (filter (\<lambda>c. device_id c = device_id conn) (reg usr),
      reg(usr := filter (\<lambda>c. device_id c \<noteq> device_id conn) (reg usr) @ [conn]))"

definition unregister ::
    "'u \<Rightarrow> 'd \<Rightarrow> ('u, 'd, 't) registry_set \<Rightarrow> ('u, 'd, 't) registry_set" where
  "unregister usr d reg = reg(usr := filter (\<lambda>c. device_id c \<noteq> d) (reg usr))"

definition listLive ::
    "'u \<Rightarrow> ('u, 'd, 't) registry_set \<Rightarrow> ('u, 'd, 't) device_connection list" where
  "listLive usr reg = reg usr"

text \<open>
  Modelled from the spec: the Lifecycle Manager's side of \<open>register\<close> (sections 4.1 and
  4.4): when the registry reports "replaced", the caller closes the superseded transport.
  \<open>closed_transports\<close> logs every close.
\<close>

record ('u, 'd, 't) server =
  registry :: "('u, 'd, 't) registry_set"
  closed_transports :: "'t list"

definition empty_server :: "('u, 'd, 't) server" where
  "empty_server = \<lparr>registry = empty_registry, closed_transports = []\<rparr>"

definition enter_live ::
    "('u, 'd, 't) server \<Rightarrow> 'u \<times> ('u, 'd, 't) device_connection \<Rightarrow> ('u, 'd, 't) server" where
  "enter_live s call =
     (let r = register (fst call) (snd call) (registry s)
      in s\<lparr>registry := snd r,
             closed_transports := closed_transports s @ map transport (fst r)\<rparr>)"

definition enter_live_all ::
    "('u \<times> ('u, 'd, 't) device_connection) list \<Rightarrow> ('u, 'd, 't) server
      \<Rightarrow> ('u, 'd, 't) server" where
  "enter_live_all calls s = foldl enter_live s calls"

text \<open>
  Modelled from the spec: the Broadcast Dispatcher (section 4.3). \<open>publish\<close> takes the
  snapshot \<open>listLive\<close> and attempts delivery to every connection in it whose device id
  is not the excluded origin; \<open>send\<close> is the transport's write and tells whether it
  succeeded, and a failure does not stop the remaining attempts. The result lists the
  attempts in order, each with its outcome.
\<close>

definition publish ::
    "('t \<Rightarrow> 'e \<Rightarrow> bool) \<Rightarrow> ('u, 'd, 't) registry_set \<Rightarrow> 'u \<Rightarrow> 'e \<Rightarrow> 'd option
      \<Rightarrow> (('u, 'd, 't) device_connection \<times> bool) list" where
  "publish send reg usr event originDeviceId =
     map (\<lambda>c. (c, send (transport c) event))
       (filter (\<lambda>c. Some (device_id c) \<noteq> originDeviceId) (listLive usr reg))"

section \<open>Derived notions and sample states\<close>

text \<open>
  \<open>ws.onclose\<close> schedules a reconnect when it hands a new delay to \<open>setTimeout\<close>.
\<close>

definition schedules_reconnect :: "close_cause \<Rightarrow> ws_client \<Rightarrow> bool" where
  "schedules_reconnect ev c = (scheduled (onclose ev c) \<noteq> scheduled c)"

text \<open>Sample states on which the results below are evaluated.\<close>

definition example_client :: ws_client where
  "example_client =
     \<lparr>useAuth = \<lparr>user = JNull, deviceId = Some ''device-1'', isAuthenticated = True,
                  loading = False\<rparr>,
      localStorage = [''access_token'' \<mapsto> ''token-1''],
      WS_URL = ''ws://localhost:8000'',
      WebSocket_throws = (\<lambda>url. None),
      subtle_importKey = Inr,
      subtle_generateKey = Inr (''key-2'', ''jwk-2''),
      isConnected = False, lastUpdate = JNull, wsRef = None, reconnectTimeoutRef = None,
      reconnectAttempts = 0, opened = [], scheduled = [], sent = []\<rparr>"

definition example_ping :: jsval where
  "example_ping = JObj [(''type'', JStr ''ping''), (''timestamp'', JStr ''2025-11-25T10:35:00Z'')]"

definition example_storage :: local_storage where
  "example_storage =
     [''access_token'' \<mapsto> ''token-1'', ''user_id'' \<mapsto> ''user-1'', ''device_id'' \<mapsto> ''device-1'',
      ''encryption_key'' \<mapsto> ''jwk-1'']"

definition example_auth :: auth_state where
  "example_auth = \<lparr>user = JObj [(''email'', JStr ''user@example.com'')],
     deviceId = Some ''device-1'', isAuthenticated = True, loading = False\<rparr>"


definition example_row :: "nat \<Rightarrow> int option \<Rightarrow> clipboard_row" where
  "example_row i t =
     \<lparr>item_id = i, user_id = 7, created_at = t,
      device_ref = None, encrypted_content = ''3q2+7w=='', iv = ''AAAAAAAAAAAAAAAA'',
      content_hash = ''e3b0c442'', content_type = Some ''text'', content_size = 4,
      image_format = None, image_width = None, image_height = None\<rparr>"



definition example_window :: "(string, string) fingerprint_window" where
  "example_window = Map.empty((''U1'', ''h1'') \<mapsto> 0)"

definition example_calls :: "(string \<times> string \<times> int) list" where
  "example_calls = [(''U1'', ''h1'', 10), (''U2'', ''h1'', 20)]"

definition example_conn :: "string \<Rightarrow> nat \<Rightarrow> (string, string, nat) device_connection" where
  "example_conn dev t =
     \<lparr>device_id = dev, owner = ''U1'', connected_since = 0, last_heartbeat = 0, transport = t\<rparr>"

definition example_register_calls :: "(string \<times> (string, string, nat) device_connection) list" where
  "example_register_calls =
     [(''U1'', example_conn ''A'' 1), (''U1'', example_conn ''A'' 2), (''U1'', example_conn ''A'' 3)]"

definition example_registry :: "(string, string, nat) registry_set" where
  "example_registry =
     registry (enter_live_all [(''U1'', example_conn ''A'' 1), (''U1'', example_conn ''B'' 2)]
       empty_server)"

section \<open>The reconnect policy of the web client\<close>

lemma connect_frame:
  "useAuth (connect c) = useAuth c"
  "reconnectAttempts (connect c) = reconnectAttempts c"
  "scheduled (connect c) = scheduled c"
  "sent (connect c) = sent c"
  "isConnected (connect c) = isConnected c"
  "reconnectTimeoutRef (connect c) = reconnectTimeoutRef c"
  by (simp_all add: connect_def split: option.split sum.split)

lemma failed_attempt_effect:
  assumes "isAuthenticated (useAuth c)" and "reconnectAttempts c < 10"
  shows "scheduled (failed_attempt ev c) = scheduled c @ [reconnect_delay (reconnectAttempts c)]"
    and "reconnectAttempts (failed_attempt ev c) = Suc (reconnectAttempts c)"
    and "useAuth (failed_attempt ev c) = useAuth c"
  using assms
  by (simp_all add: failed_attempt_def reconnect_callback_def onclose_def connect_frame Let_def)

lemma consecutive_failures_effect:
  "isAuthenticated (useAuth c) \<Longrightarrow> reconnectAttempts c + length evs \<le> 10 \<Longrightarrow>
   scheduled (consecutive_failures evs c) =
     scheduled c @ map reconnect_delay [reconnectAttempts c ..< reconnectAttempts c + length evs]
   \<and> reconnectAttempts (consecutive_failures evs c) = reconnectAttempts c + length evs
   \<and> useAuth (consecutive_failures evs c) = useAuth c"
proof (induction evs arbitrary: c)
  case Nil
  then show ?case by simp
next
  case (Cons ev evs)
  let ?d = "failed_attempt ev c"
  from Cons.prems have lt: "reconnectAttempts c < 10" by simp
  note fa = failed_attempt_effect [OF Cons.prems(1) lt, of ev]
  have "isAuthenticated (useAuth ?d)" using fa(3) Cons.prems(1) by simp
  moreover have "reconnectAttempts ?d + length evs \<le> 10" using fa(2) Cons.prems(2) by simp
  ultimately have IH: "scheduled (consecutive_failures evs ?d) =
     scheduled ?d @ map reconnect_delay [reconnectAttempts ?d ..< reconnectAttempts ?d + length evs]
   \<and> reconnectAttempts (consecutive_failures evs ?d) = reconnectAttempts ?d + length evs
   \<and> useAuth (consecutive_failures evs ?d) = useAuth ?d"
    by (rule Cons.IH)
  have "[reconnectAttempts c ..< reconnectAttempts c + length (ev # evs)] =
        reconnectAttempts c # [Suc (reconnectAttempts c) ..< Suc (reconnectAttempts c) + length evs]"
    by (subst upt_rec) simp
  then show ?case using IH fa by simp
qed

lemma failed_attempt_opens:
  assumes "isAuthenticated (useAuth c)" and "truthy (deviceId (useAuth c))"
      and "getItem ''access_token'' (localStorage c) = Some token" and "token \<noteq> []"
      and "new_WebSocket c (getWebSocketURL (WS_URL c) token) = Inr ws"
  shows "opened (failed_attempt ev c) = opened c @ [ws]"
    and "useAuth (failed_attempt ev c) = useAuth c"
    and "localStorage (failed_attempt ev c) = localStorage c"
    and "WS_URL (failed_attempt ev c) = WS_URL c"
    and "new_WebSocket (failed_attempt ev c) = new_WebSocket c"
  using assms
  by (simp_all add: failed_attempt_def reconnect_callback_def onclose_def connect_def Let_def
      new_WebSocket_def fun_eq_iff)

lemma consecutive_failures_opened:
  "isAuthenticated (useAuth c) \<Longrightarrow> truthy (deviceId (useAuth c)) \<Longrightarrow>
   getItem ''access_token'' (localStorage c) = Some token \<Longrightarrow> token \<noteq> [] \<Longrightarrow>
   new_WebSocket c (getWebSocketURL (WS_URL c) token) = Inr ws \<Longrightarrow>
   opened (consecutive_failures evs c) = opened c @ replicate (length evs) ws"
proof (induction evs arbitrary: c)
  case Nil
  then show ?case by simp
next
  case (Cons ev evs)
  note fa = failed_attempt_opens [OF Cons.prems, of ev]
  have "opened (consecutive_failures evs (failed_attempt ev c)) =
      opened (failed_attempt ev c) @ replicate (length evs) ws"
    by (rule Cons.IH) (simp_all add: fa Cons.prems)
  then show ?case by (simp add: fa(1) replicate_app_Cons_same)
qed

text \<open>
  C2. A client whose captured \<open>isAuthenticated\<close> is true and whose attempt counter is
  0 goes through at most ten consecutive failed connections (a close, then the reconnect
  timer firing): the delays handed to \<open>setTimeout\<close> are \<open>min (1000 * 2 ^ attempt) 30000\<close>
  milliseconds for attempt 0, 1, 2, ...; seven failures give 1000, 2000, 4000, 8000,
  16000, 30000, 30000. When the device id and the stored token are present and the
  constructor does not throw, every one of these timers, on firing, opened a new socket.
\<close>

theorem C2_reconnect_backoff:
  assumes "isAuthenticated (useAuth c)" and "reconnectAttempts c = 0" and "length evs \<le> 10"
  shows "scheduled (consecutive_failures evs c) =
           scheduled c @ map (\<lambda>attempt. min (1000 * 2 ^ attempt) 30000) [0 ..< length evs]
       \<and> (length evs = 7 \<longrightarrow>
            scheduled (consecutive_failures evs c) =
              scheduled c @ [1000, 2000, 4000, 8000, 16000, 30000, 30000])
       \<and> (truthy (deviceId (useAuth c)) \<and> getItem ''access_token'' (localStorage c) = Some token
            \<and> token \<noteq> [] \<and> new_WebSocket c (getWebSocketURL (WS_URL c) token) = Inr ws \<longrightarrow>
            opened (consecutive_failures evs c) = opened c @ replicate (length evs) ws)"
proof -
  have d: "reconnect_delay = (\<lambda>attempt. min (1000 * 2 ^ attempt) 30000)"
    by (rule ext) (simp add: reconnect_delay_def)
  have gen: "scheduled (consecutive_failures evs c) =
           scheduled c @ map reconnect_delay [0 ..< length evs]"
    using consecutive_failures_effect [of c evs] assms by simp
  have "[0 ..< 7] = [0, 1, 2, 3, 4, 5, 6 :: nat]"
    by (simp add: upt_rec)
  then have "map reconnect_delay [0 ..< 7] = [1000, 2000, 4000, 8000, 16000, 30000, 30000]"
    by (simp add: reconnect_delay_def)
  with gen have delays: "scheduled (consecutive_failures evs c) =
           scheduled c @ map (\<lambda>attempt. min (1000 * 2 ^ attempt) 30000) [0 ..< length evs]
       \<and> (length evs = 7 \<longrightarrow>
            scheduled (consecutive_failures evs c) =
              scheduled c @ [1000, 2000, 4000, 8000, 16000, 30000, 30000])"
    by (simp add: d)
  have "opened (consecutive_failures evs c) = opened c @ replicate (length evs) ws"
    if "truthy (deviceId (useAuth c))" "getItem ''access_token'' (localStorage c) = Some token"
       "token \<noteq> []" "new_WebSocket c (getWebSocketURL (WS_URL c) token) = Inr ws"
    using consecutive_failures_opened [OF assms(1) that] .
  with delays show ?thesis by blast
qed

theorem C2_witness:
  "scheduled (consecutive_failures
      [HeartbeatTimeout, NormalClosure, ServerShutdown, HeartbeatTimeout, HeartbeatTimeout,
       NormalClosure, AuthenticationFailure] example_client)
   = [1000, 2000, 4000, 8000, 16000, 30000, 30000]
   \<and> length (opened (consecutive_failures
      [HeartbeatTimeout, NormalClosure, ServerShutdown, HeartbeatTimeout, HeartbeatTimeout,
       NormalClosure, AuthenticationFailure] example_client)) = 7
   \<and> set (opened (consecutive_failures
      [HeartbeatTimeout, NormalClosure, ServerShutdown, HeartbeatTimeout, HeartbeatTimeout,
       NormalClosure, AuthenticationFailure] example_client))
     = {''ws://localhost:8000/ws/clipboard?token=token-1''}"
proof -
  have a: "isAuthenticated (useAuth example_client)" and z: "reconnectAttempts example_client = 0"
    and s: "scheduled example_client = []" and o: "opened example_client = []"
    and d: "truthy (deviceId (useAuth example_client))"
    and t: "getItem ''access_token'' (localStorage example_client) = Some ''token-1''"
    and w: "new_WebSocket example_client (getWebSocketURL (WS_URL example_client) ''token-1'') =
              Inr ''ws://localhost:8000/ws/clipboard?token=token-1''"
    by (simp_all add: example_client_def getItem_def new_WebSocket_def getWebSocketURL_def)
  show ?thesis
    using C2_reconnect_backoff [OF a z, of "[HeartbeatTimeout, NormalClosure, ServerShutdown,
      HeartbeatTimeout, HeartbeatTimeout, NormalClosure, AuthenticationFailure]"
      "''token-1''" "''ws://localhost:8000/ws/clipboard?token=token-1''"] s o d t w
    by simp
qed

text \<open>
  C3, as the claim states it, fails: a close caused by an authentication failure is
  followed by a scheduled reconnect like any other.
\<close>

theorem C3_counterexample:
  "schedules_reconnect AuthenticationFailure example_client"
  by (simp add: schedules_reconnect_def onclose_def example_client_def Let_def)

text \<open>
  C3, amended. For every close and whatever its cause, a reconnect is scheduled exactly
  when the captured \<open>isAuthenticated\<close> is true and the attempt counter is below 10; the
  handler does the same for every cause, an authentication failure included.
\<close>

theorem C3_reconnect_ignores_close_cause:
  "schedules_reconnect ev c = (isAuthenticated (useAuth c) \<and> reconnectAttempts c < 10)
   \<and> onclose ev c = onclose AuthenticationFailure c"
  by (simp add: schedules_reconnect_def onclose_def Let_def)

theorem C3_witness:
  "schedules_reconnect ServerShutdown example_client
   \<and> onclose ServerShutdown example_client = onclose AuthenticationFailure example_client"
  using C3_reconnect_ignores_close_cause [of ServerShutdown example_client]
  by (simp add: example_client_def)

lemma onclose_at_ceiling:
  "10 \<le> reconnectAttempts c \<Longrightarrow>
   onclose ev c = c\<lparr>isConnected := False, wsRef := None\<rparr>"
  by (simp add: onclose_def Let_def)

text \<open>
  C4. \<open>ws.onopen\<close> sets the attempt counter to 0 and marks the client connected. Once
  the counter is 10 or more, \<open>ws.onclose\<close> hands nothing to \<open>setTimeout\<close> and leaves
  the client disconnected with no socket. Ten consecutive failures from a counter of 0
  reach that state: ten reconnects were scheduled, the counter is 10, and the next close
  schedules none.
\<close>

theorem C4_attempt_counter_reset_and_ceiling:
  "reconnectAttempts (onopen c) = 0 \<and> isConnected (onopen c)
   \<and> (10 \<le> reconnectAttempts c \<longrightarrow>
        onclose ev c = c\<lparr>isConnected := False, wsRef := None\<rparr>
        \<and> scheduled (onclose ev c) = scheduled c
        \<and> \<not> isConnected (onclose ev c))
   \<and> (isAuthenticated (useAuth c) \<and> reconnectAttempts c = 0 \<and> length evs = 10 \<longrightarrow>
        reconnectAttempts (consecutive_failures evs c) = 10
        \<and> length (scheduled (consecutive_failures evs c)) = length (scheduled c) + 10
        \<and> scheduled (onclose ev (consecutive_failures evs c)) = scheduled (consecutive_failures evs c)
        \<and> \<not> isConnected (onclose ev (consecutive_failures evs c)))"
proof -
  have open_reset: "reconnectAttempts (onopen c) = 0 \<and> isConnected (onopen c)"
    by (simp add: onopen_def)
  have ceiling: "onclose ev x = x\<lparr>isConnected := False, wsRef := None\<rparr>
        \<and> scheduled (onclose ev x) = scheduled x \<and> \<not> isConnected (onclose ev x)"
    if "10 \<le> reconnectAttempts x" for x
    using that by (simp add: onclose_at_ceiling)
  have run: "reconnectAttempts (consecutive_failures evs c) = 10
        \<and> length (scheduled (consecutive_failures evs c)) = length (scheduled c) + 10"
    if "isAuthenticated (useAuth c)" "reconnectAttempts c = 0" "length evs = 10"
    using consecutive_failures_effect [of c evs] that by simp
  have after: "scheduled (onclose ev (consecutive_failures evs c)) =
          scheduled (consecutive_failures evs c)
        \<and> \<not> isConnected (onclose ev (consecutive_failures evs c))"
    if "isAuthenticated (useAuth c)" "reconnectAttempts c = 0" "length evs = 10"
  proof -
    have "10 \<le> reconnectAttempts (consecutive_failures evs c)" using run [OF that] by simp
    then show ?thesis using ceiling by simp
  qed
  show ?thesis
  proof (intro conjI impI)
    show "reconnectAttempts (onopen c) = 0" and "isConnected (onopen c)"
      using open_reset by simp_all
  qed (use ceiling [of c] run after in \<open>simp_all\<close>)
qed

theorem C4_witness:
  "reconnectAttempts (onopen (example_client\<lparr>reconnectAttempts := 4\<rparr>)) = 0
   \<and> reconnectAttempts (consecutive_failures (replicate 10 HeartbeatTimeout) example_client) = 10
   \<and> scheduled (onclose HeartbeatTimeout (example_client\<lparr>reconnectAttempts := 10\<rparr>)) = []"
proof -
  have a: "isAuthenticated (useAuth example_client)" and z: "reconnectAttempts example_client = 0"
    and s: "scheduled example_client = []"
    by (simp_all add: example_client_def)
  have r: "reconnectAttempts (consecutive_failures (replicate 10 HeartbeatTimeout) example_client) = 10"
    using C4_attempt_counter_reset_and_ceiling [of example_client HeartbeatTimeout
        "replicate 10 HeartbeatTimeout"] a z by simp
  have o: "reconnectAttempts (onopen (example_client\<lparr>reconnectAttempts := 4\<rparr>)) = 0"
    using C4_attempt_counter_reset_and_ceiling [of "example_client\<lparr>reconnectAttempts := 4\<rparr>"]
    by blast
  have c: "scheduled (onclose HeartbeatTimeout (example_client\<lparr>reconnectAttempts := 10\<rparr>)) = []"
    using C4_attempt_counter_reset_and_ceiling [of "example_client\<lparr>reconnectAttempts := 10\<rparr>"
        HeartbeatTimeout] s by simp
  from o r c show ?thesis by simp
qed

section \<open>Heartbeat\<close>

text \<open>
  C5. On a parsed message whose \<open>type\<close> is \<open>ping\<close> and which carries a timestamp,
  \<open>ws.onmessage\<close> sends exactly one object, of type \<open>pong\<close> with that same timestamp,
  and changes nothing else.
\<close>

theorem C5_ping_answered_by_pong:
  assumes "map_of ps ''type'' = Some (JStr ''ping'')"
      and "map_of ps ''timestamp'' = Some ts" and "ts \<noteq> JUndefined"
  shows "onmessage (Inr (JObj ps)) c =
           c\<lparr>sent := sent c @ [JObj [(''type'', JStr ''pong''), (''timestamp'', ts)]]\<rparr>"
  using assms by (simp add: onmessage_def object_literal_def)

theorem C5_witness:
  "sent (onmessage (Inr example_ping) example_client) =
     [JObj [(''type'', JStr ''pong''), (''timestamp'', JStr ''2025-11-25T10:35:00Z'')]]"
proof -
  have "onmessage (Inr example_ping) example_client =
      example_client\<lparr>sent := sent example_client @
        [JObj [(''type'', JStr ''pong''), (''timestamp'', JStr ''2025-11-25T10:35:00Z'')]]\<rparr>"
    unfolding example_ping_def
    by (rule C5_ping_answered_by_pong) simp_all
  then show ?thesis by (simp add: example_client_def)
qed

section \<open>Logout\<close>

text \<open>
  C8. \<open>logout\<close> removes \<open>access_token\<close>, \<open>user_id\<close> and \<open>device_id\<close> from
  \<open>localStorage\<close> and leaves every other entry, \<open>encryption_key\<close> among them, as it
  was; it sets \<open>user\<close> and \<open>deviceId\<close> to null and \<open>isAuthenticated\<close> to false. A
  key stored before the logout is the key \<open>getKey\<close> imports after it, and \<open>getKey\<close>
  then stores nothing.
\<close>

theorem C8_logout_keeps_encryption_key:
  "fst (logout (ls, a)) ''access_token'' = None
   \<and> fst (logout (ls, a)) ''user_id'' = None
   \<and> fst (logout (ls, a)) ''device_id'' = None
   \<and> (\<forall>k. k \<notin> {''access_token'', ''user_id'', ''device_id''} \<longrightarrow> fst (logout (ls, a)) k = ls k)
   \<and> getItem ''encryption_key'' (fst (logout (ls, a))) = getItem ''encryption_key'' ls
   \<and> user (snd (logout (ls, a))) = JNull
   \<and> deviceId (snd (logout (ls, a))) = None
   \<and> \<not> isAuthenticated (snd (logout (ls, a)))
   \<and> (getItem ''encryption_key'' ls = Some k \<and> k \<noteq> [] \<longrightarrow>
        getKey importKey fresh (fst (logout (ls, a))) = (importKey k, fst (logout (ls, a))))"
  by (simp add: logout_def removeItem_def getItem_def getKey_def Let_def)

theorem C8_witness:
  "fst (logout (example_storage, example_auth)) = [''encryption_key'' \<mapsto> ''jwk-1'']
   \<and> fst (getKey Inr (Inr (''key-2'', ''jwk-2'')) (fst (logout (example_storage, example_auth))))
       = Inr ''jwk-1''"
proof -
  note t = C8_logout_keeps_encryption_key [of example_storage example_auth "''jwk-1''" Inr
      "Inr (''key-2'', ''jwk-2'')"]
  have k: "getItem ''encryption_key'' example_storage = Some ''jwk-1''"
    by (simp add: getItem_def example_storage_def)
  have "fst (logout (example_storage, example_auth)) x = [''encryption_key'' \<mapsto> ''jwk-1''] x" for x
  proof (cases "x \<in> {''access_token'', ''user_id'', ''device_id''}")
    case True
    then show ?thesis using t by auto
  next
    case False
    then have "fst (logout (example_storage, example_auth)) x = example_storage x"
      using t by blast
    with False show ?thesis by (simp add: example_storage_def)
  qed
  then have "fst (logout (example_storage, example_auth)) = [''encryption_key'' \<mapsto> ''jwk-1'']"
    by (rule ext)
  moreover have "getKey Inr (Inr (''key-2'', ''jwk-2'')) (fst (logout (example_storage, example_auth))) =
      (Inr ''jwk-1'', fst (logout (example_storage, example_auth)))"
    using t k by blast
  ultimately show ?thesis by simp
qed

section \<open>Base64\<close>

lemma fromCharCode_loop_eq:
  "fromCharCode_loop bytes i binary = binary @ map fromCharCode (drop i bytes)"
proof (induction bytes i binary rule: fromCharCode_loop.induct)
  case (1 bytes i binary)
  show ?case
  proof (cases "i < length bytes")
    case True
    then have "drop i bytes = bytes ! i # drop (Suc i) bytes"
      by (simp add: Cons_nth_drop_Suc)
    with True "1.IH" show ?thesis by (subst fromCharCode_loop.simps) simp
  next
    case False
    then show ?thesis by (subst fromCharCode_loop.simps) simp
  qed
qed

lemma charCodeAt_loop_eq:
  "length bytes = length binary \<Longrightarrow>
   charCodeAt_loop binary i bytes = take i bytes @ map toUint8 (drop i binary)"
proof (induction binary i bytes rule: charCodeAt_loop.induct)
  case (1 binary i bytes)
  show ?case
  proof (cases "i < length binary")
    case True
    have len: "length (bytes[i := toUint8 (binary ! i)]) = length binary"
      using "1.prems" by simp
    have d: "drop i binary = binary ! i # drop (Suc i) binary"
      using True by (simp add: Cons_nth_drop_Suc)
    have t: "take (Suc i) (bytes[i := toUint8 (binary ! i)]) = take i bytes @ [toUint8 (binary ! i)]"
      using True "1.prems" by (simp add: take_Suc_conv_app_nth)
    from "1.IH" [OF True len] t d True show ?thesis
      by (subst charCodeAt_loop.simps) simp
  next
    case False
    then show ?thesis using "1.prems" by (subst charCodeAt_loop.simps) simp
  qed
qed

lemma unat_fromCharCode: "unat (fromCharCode b) = unat b"
proof -
  have "unat b < 2 ^ 16"
    using unsigned_less [of b, where ?'a = nat] by simp
  then show ?thesis
    by (simp add: fromCharCode_def unsigned_ucast_eq take_bit_nat_eq_self)
qed

lemma toUint8_of_nat_unat: "toUint8 (of_nat (unat (b :: 8 word))) = b"
  by (simp add: toUint8_def ucast_up_ucast_id is_up)


lemma unat_of_nat16: "n < 65536 \<Longrightarrow> unat (of_nat n :: 16 word) = n"
  by (simp add: unat_of_nat)

lemma unat_b64_char:
  "unat (b64_char i) =
     (if i < 26 then 65 + i else if i < 52 then 71 + i else if i < 62 then i - 4
      else if i = 62 then 43 else 47)"
  unfolding b64_char_def
  by (simp add: unat_of_nat16 del: of_nat_add of_nat_diff)

lemma div4_small [simp]: "a < 256 \<Longrightarrow> a div 4 < (64::nat)"
  by simp

lemma div16_small [simp]: "b < 256 \<Longrightarrow> b div 16 < (16::nat)"
  by simp

lemma div64_small [simp]: "c < 256 \<Longrightarrow> c div 64 < (4::nat)"
  by simp

lemma sextet_bound2: "b < 256 \<Longrightarrow> (a mod 4) * 16 + b div 16 < (64::nat)"
proof -
  assume "b < 256"
  then have "b div 16 < 16" by simp
  moreover have "a mod 4 < 4" by simp
  ultimately show ?thesis by linarith
qed

lemma sextet_bound3: "c < 256 \<Longrightarrow> (b mod 16) * 4 + c div 64 < (64::nat)"
proof -
  assume "c < 256"
  then have "c div 64 < 4" by simp
  moreover have "b mod 16 < 16" by simp
  ultimately show ?thesis by linarith
qed

lemma sextet_bound4: "(a mod 4) * 16 < (64::nat)" "(b mod 16) * 4 < (64::nat)"
proof -
  have "a mod 4 < 4" by simp
  then show "(a mod 4) * 16 < (64::nat)" by linarith
  have "b mod 16 < 16" by simp
  then show "(b mod 16) * 4 < (64::nat)" by linarith
qed

lemma b64_index_char: "i < 64 \<Longrightarrow> b64_index (b64_char i) = Some i"
  by (auto simp: b64_index_def unat_b64_char Let_def)

lemma b64_char_not_pad: "b64_char i \<noteq> 61"
proof
  assume "b64_char i = 61"
  then have "unat (b64_char i) = unat (61 :: 16 word)" by simp
  then show False by (simp add: unat_b64_char split: if_splits)
qed

lemma b64_char_not_space: "\<not> ascii_whitespace (b64_char i)"
proof
  assume "ascii_whitespace (b64_char i)"
  then have "unat (b64_char i) \<in> {9, 10, 12, 13, 32}"
    by (auto simp: ascii_whitespace_def)
  then show False by (auto simp: unat_b64_char split: if_splits)
qed

lemma filter_b64_encode:
  "filter (\<lambda>u. \<not> ascii_whitespace u) (b64_encode bs) = b64_encode bs"
proof -
  have "\<not> ascii_whitespace (61 :: 16 word)" by (simp add: ascii_whitespace_def)
  then show ?thesis
    by (auto simp: b64_encode_def b64_padding_def b64_char_not_space filter_id_conv)
qed

lemma length_b64_sextets:
  "length (b64_sextets bs) =
     4 * (length bs div 3) + (if length bs mod 3 = 0 then 0 else length bs mod 3 + 1)"
  by (induction bs rule: b64_sextets.induct) simp_all

lemma b64_sextets_bound:
  "\<forall>b \<in> set bs. b < 256 \<Longrightarrow> \<forall>i \<in> set (b64_sextets bs). i < 64"
  by (induction bs rule: b64_sextets.induct) (simp_all add: sextet_bound2 sextet_bound3 sextet_bound4)

lemma b64_octets_sextets:
  "\<forall>b \<in> set bs. b < 256 \<Longrightarrow> b64_octets (b64_sextets bs) = bs"
  by (induction bs rule: b64_sextets.induct) simp_all

lemma those_indices_chars:
  "\<forall>i \<in> set ix. i < 64 \<Longrightarrow> those_indices (map b64_char ix) = Some ix"
  by (induction ix) (simp_all add: b64_index_char)


lemma strip_padding_b64_encode:
  "strip_padding (b64_encode bs) = map b64_char (b64_sextets bs)"
proof -
  let ?body = "map b64_char (b64_sextets bs)"
  have len: "length ?body = 4 * (length bs div 3) +
      (if length bs mod 3 = 0 then 0 else length bs mod 3 + 1)"
    by (simp add: length_b64_sextets)
  have last_body: "?body \<noteq> [] \<Longrightarrow> last ?body \<noteq> 61"
    by (simp add: last_map b64_char_not_pad)
  consider (zero) "length bs mod 3 = 0" | (one) "length bs mod 3 = 1" | (two) "length bs mod 3 = 2"
    by linarith
  then show ?thesis
  proof cases
    case zero
    then have enc: "b64_encode bs = ?body"
      by (simp add: b64_encode_def b64_padding_def)
    show ?thesis
    proof (cases "?body = []")
      case True
      then show ?thesis using enc by (simp add: strip_padding_def)
    next
      case False
      then show ?thesis using enc last_body by (simp add: strip_padding_def)
    qed
  next
    case one
    then have enc: "b64_encode bs = ?body @ [61, 61]"
      by (simp add: b64_encode_def b64_padding_def numeral_2_eq_2)
    have "length (b64_encode bs) mod 4 = 0"
      using len one by (simp add: enc)
    then show ?thesis
      by (simp add: strip_padding_def enc butlast_append)
  next
    case two
    then have enc: "b64_encode bs = ?body @ [61]"
      by (simp add: b64_encode_def b64_padding_def)
    have ne: "?body \<noteq> []" using len two by auto
    have "length (b64_encode bs) mod 4 = 0"
      using len two by (simp add: enc)
    then show ?thesis
      using last_body [OF ne] ne
      by (simp add: strip_padding_def enc butlast_append)
  qed
qed

lemma length_sextets_mod4: "length (b64_sextets bs) mod 4 \<noteq> Suc 0"
proof -
  let ?r = "if length bs mod 3 = 0 then 0 else length bs mod 3 + 1"
  have eq: "length (b64_sextets bs) mod 4 = ?r mod 4"
    by (simp only: length_b64_sextets mod_mult_self4)
  have "length bs mod 3 < 3" by simp
  then consider "length bs mod 3 = 0" | "length bs mod 3 = 1" | "length bs mod 3 = 2"
    by linarith
  then have "?r mod 4 \<noteq> 1"
    by cases simp_all
  with eq show ?thesis by simp
qed

lemma atob_b64_encode:
  assumes "\<forall>b \<in> set bs. b < 256"
  shows "atob (b64_encode bs) = Inr (map of_nat bs)"
  using assms
  by (simp add: atob_def filter_b64_encode strip_padding_b64_encode length_sextets_mod4
      those_indices_chars b64_sextets_bound b64_octets_sextets)

lemma btoa_bytes:
  "btoa (map fromCharCode bytes) = Inr (b64_encode (map unat bytes))"
proof -
  have "unat b \<le> 255" for b :: "8 word"
    using unsigned_less [of b, where ?'a = nat] by simp
  then have "\<not> list_ex (\<lambda>u. 255 < unat u) (map fromCharCode bytes)"
    by (auto simp: list_ex_iff unat_fromCharCode not_less)
  then show ?thesis
    by (simp add: btoa_def unat_fromCharCode comp_def)
qed

lemma arrayBufferToBase64_eq:
  "arrayBufferToBase64 b = Inr (b64_encode (map unat b))"
  by (simp only: arrayBufferToBase64_def fromCharCode_loop_eq drop_0 append_Nil btoa_bytes)

lemma unat_bytes_bound: "\<forall>n \<in> set (map unat (b :: 8 word list)). n < 256"
proof
  fix n assume "n \<in> set (map unat b)"
  then obtain w :: "8 word" where "n = unat w" by auto
  then show "n < 256" using unsigned_less [of w, where ?'a = nat] by simp
qed

lemma toUint8_bytes: "map toUint8 (map of_nat (map unat b)) = b"
proof -
  have "map toUint8 (map of_nat (map unat b)) = map (\<lambda>w. toUint8 (of_nat (unat w))) b"
    by (simp only: map_map comp_def)
  also have "\<dots> = map (\<lambda>w. w) b"
    by (simp only: toUint8_of_nat_unat)
  finally show ?thesis by simp
qed

lemma base64ToArrayBuffer_encode:
  "base64ToArrayBuffer (b64_encode (map unat b)) = Inr b"
proof -
  let ?bin = "map of_nat (map unat b) :: 16 word list"
  have a: "atob (b64_encode (map unat b)) = Inr ?bin"
    by (rule atob_b64_encode [OF unat_bytes_bound])
  have l: "charCodeAt_loop ?bin 0 (replicate (length ?bin) 0) = map toUint8 ?bin"
    by (subst charCodeAt_loop_eq) simp_all
  show ?thesis
    unfolding base64ToArrayBuffer_def a sum.case l toUint8_bytes ..
qed

text \<open>
  C9. For every byte buffer \<open>b\<close>, \<open>arrayBufferToBase64\<close> returns a string (it does not
  throw), and \<open>base64ToArrayBuffer\<close> of that string returns exactly the bytes of \<open>b\<close>.
\<close>

theorem C9_base64_roundtrip:
  "\<exists>s. arrayBufferToBase64 b = Inr s \<and> base64ToArrayBuffer s = Inr b"
  using arrayBufferToBase64_eq base64ToArrayBuffer_encode by blast

theorem C9_witness:
  "base64ToArrayBuffer [84, 87, 69, 61] = Inr [77, 97]"
proof -
  obtain s where s: "arrayBufferToBase64 [77, 97] = Inr s" "base64ToArrayBuffer s = Inr [77, 97]"
    using C9_base64_roundtrip [of "[77, 97]"] by blast
  have "arrayBufferToBase64 [77, 97] = Inr [84, 87, 69, 61]"
    by code_simp
  with s show ?thesis by simp
qed

section \<open>The cleanup trigger\<close>










lemma varchar_Inr: "varchar n x = Inr y \<Longrightarrow> (x = None) = (y = None)"
  by (cases x) (auto split: if_splits)

lemma integer_column_Inr: "integer_column x = Inr y \<Longrightarrow> y = x"
  by (cases x) (auto split: if_splits)














lemma example_row_sel [simp]:
  "item_id (example_row i t) = i" "user_id (example_row i t) = 7"
  "created_at (example_row i t) = t"
  by (simp_all add: example_row_def)







section \<open>Deduplicator\<close>

lemma shouldAccept_accepted:
  "shouldAccept h U F T w = (True, w1) \<Longrightarrow> w1 = w((U, F) \<mapsto> T)"
  by (auto simp: shouldAccept_def split: option.splits if_splits)

lemma shouldAccept_other_key:
  "(u, f) \<noteq> (U, F) \<Longrightarrow> snd (shouldAccept h u f t w) (U, F) = w (U, F)"
  by (auto simp: shouldAccept_def split: option.splits)

lemma shouldAccept_rejected_same:
  "w (U, F) = Some T \<Longrightarrow> t - T < h \<Longrightarrow> shouldAccept h U F t w = (False, w)"
  by (simp add: shouldAccept_def)

lemma shouldAccept_calls_keep:
  "w (U, F) = Some T \<Longrightarrow> \<forall>c \<in> set calls. (fst c, fst (snd c)) \<noteq> (U, F) \<or> snd (snd c) - T < h \<Longrightarrow>
   shouldAccept_calls h calls w (U, F) = Some T"
proof (induction calls arbitrary: w)
  case Nil
  then show ?case by simp
next
  case (Cons c calls)
  obtain u f t where c: "c = (u, f, t)" by (cases c)
  have "snd (shouldAccept h u f t w) (U, F) = Some T"
  proof (cases "(u, f) = (U, F)")
    case True
    with Cons.prems c have "t - T < h" by auto
    with True Cons.prems(1) show ?thesis by (simp add: shouldAccept_rejected_same)
  next
    case False
    with Cons.prems(1) show ?thesis by (simp add: shouldAccept_other_key)
  qed
  moreover have "\<forall>c \<in> set calls. (fst c, fst (snd c)) \<noteq> (U, F) \<or> snd (snd c) - T < h"
    using Cons.prems(2) by simp
  ultimately show ?case using Cons.IH c by simp
qed

text \<open>
  C1. Let a call for user \<open>U\<close> and fingerprint \<open>F\<close> be accepted at time \<open>T\<close>, and let it
  be followed by any calls that are for other keys or fall within the horizon of \<open>T\<close>.
  Then a call for \<open>(U, F)\<close> at time \<open>T'\<close> is rejected, leaving the window as it is, when
  \<open>T' - T\<close> is less than the horizon, and is accepted and recorded at \<open>T'\<close> when
  \<open>T' - T\<close> is at least the horizon. The default horizon is 60 seconds.
\<close>

theorem C1_dedup_within_horizon:
  assumes "shouldAccept h U F T w = (True, w1)"
      and "\<forall>c \<in> set calls. (fst c, fst (snd c)) \<noteq> (U, F) \<or> snd (snd c) - T < h"
      and "w2 = shouldAccept_calls h calls w1"
  shows "shouldAccept h U F T' w2 =
           (if T' - T < h then (False, w2) else (True, w2((U, F) \<mapsto> T')))
         \<and> default_horizon = 60"
proof -
  have "w1 (U, F) = Some T" using shouldAccept_accepted [OF assms(1)] by simp
  then have "w2 (U, F) = Some T"
    unfolding assms(3) using assms(2) by (rule shouldAccept_calls_keep)
  then show ?thesis by (simp add: shouldAccept_def default_horizon_def)
qed

theorem C1_witness:
  "shouldAccept default_horizon ''U1'' ''h1'' 0 Map.empty = (True, example_window)
   \<and> fst (shouldAccept default_horizon ''U1'' ''h1'' 59
        (shouldAccept_calls default_horizon example_calls example_window)) = False
   \<and> fst (shouldAccept default_horizon ''U1'' ''h1'' 60
        (shouldAccept_calls default_horizon example_calls example_window)) = True"
proof -
  let ?W = "shouldAccept_calls default_horizon example_calls example_window"
  have a: "shouldAccept default_horizon ''U1'' ''h1'' 0 Map.empty = (True, example_window)"
    by (simp add: shouldAccept_def example_window_def)
  have b: "\<forall>c \<in> set example_calls.
      (fst c, fst (snd c)) \<noteq> (''U1'', ''h1'') \<or> snd (snd c) - 0 < default_horizon"
    by (simp add: default_horizon_def example_calls_def)
  have lt: "(59::int) - 0 < default_horizon" and ge: "\<not> (60::int) - 0 < default_horizon"
    by (simp_all add: default_horizon_def)
  have "shouldAccept default_horizon ''U1'' ''h1'' 59 ?W = (False, ?W)"
    using C1_dedup_within_horizon [OF a b refl, of 59, THEN conjunct1] by (simp only: lt if_True)
  moreover have "shouldAccept default_horizon ''U1'' ''h1'' 60 ?W = (True, ?W((''U1'', ''h1'') \<mapsto> 60))"
    using C1_dedup_within_horizon [OF a b refl, of 60, THEN conjunct1] by (simp only: ge if_False)
  ultimately show ?thesis using a by (simp only: fst_conv simp_thms)
qed

section \<open>Connection registry\<close>

lemma enter_live_all_snoc:
  "enter_live_all (calls @ [c]) s = enter_live (enter_live_all calls s) c"
  by (simp add: enter_live_all_def)

lemma enter_live_registry:
  "registry (enter_live s (u, c)) u =
     filter (\<lambda>x. device_id x \<noteq> device_id c) (registry s u) @ [c]"
  "u' \<noteq> u \<Longrightarrow> registry (enter_live s (u, c)) u' = registry s u'"
  "closed_transports (enter_live s (u, c)) =
     closed_transports s @ map transport (filter (\<lambda>x. device_id x = device_id c) (registry s u))"
  by (simp_all add: enter_live_def register_def Let_def)

text \<open>After at least one call for the key, the state of the registry and of the close log.\<close>

lemma same_key_calls:
  "\<forall>call \<in> set calls. fst call = u \<and> device_id (snd call) = d \<Longrightarrow> calls \<noteq> [] \<Longrightarrow>
   filter (\<lambda>c. device_id c = d) (registry (enter_live_all calls s0) u) = [snd (last calls)]
   \<and> filter (\<lambda>c. device_id c \<noteq> d) (registry (enter_live_all calls s0) u) =
       filter (\<lambda>c. device_id c \<noteq> d) (registry s0 u)
   \<and> (\<forall>u'. u' \<noteq> u \<longrightarrow> registry (enter_live_all calls s0) u' = registry s0 u')
   \<and> closed_transports (enter_live_all calls s0) =
       closed_transports s0 @ map transport (filter (\<lambda>c. device_id c = d) (registry s0 u))
         @ map (transport \<circ> snd) (butlast calls)"
proof (induction calls rule: rev_induct)
  case Nil
  then show ?case by simp
next
  case (snoc call calls)
  obtain c where call: "call = (u, c)" and dc: "device_id c = d"
    using snoc.prems(1) by (cases call) auto
  have same': "\<forall>call \<in> set calls. fst call = u \<and> device_id (snd call) = d"
    using snoc.prems(1) by simp
  let ?s = "enter_live_all calls s0"
  have prev: "filter (\<lambda>c. device_id c \<noteq> d) (registry ?s u) = filter (\<lambda>c. device_id c \<noteq> d) (registry s0 u)
     \<and> (\<forall>u'. u' \<noteq> u \<longrightarrow> registry ?s u' = registry s0 u')
     \<and> closed_transports ?s @ map transport (filter (\<lambda>c. device_id c = d) (registry ?s u)) =
           closed_transports s0 @ map transport (filter (\<lambda>c. device_id c = d) (registry s0 u))
             @ map (transport \<circ> snd) calls"
  proof (cases "calls = []")
    case True
    then show ?thesis by (simp add: enter_live_all_def)
  next
    case False
    then have "butlast calls @ [last calls] = calls" by simp
    then have "map (transport \<circ> snd) calls =
        map (transport \<circ> snd) (butlast calls) @ [transport (snd (last calls))]"
      by (metis (no_types, lifting) list.simps(8,9) map_append comp_apply)
    with snoc.IH [OF same' False] show ?thesis by simp
  qed
  show ?case using prev by (simp add: enter_live_all_snoc call enter_live_registry dc)
qed


lemma count_list_distinct: "distinct xs \<Longrightarrow> x \<in> set xs \<Longrightarrow> count_list xs x = 1"
  by (induction xs) auto

text \<open>
  C6. Take any sequence of \<open>register\<close> calls for one user \<open>u\<close> and one device id \<open>d\<close>,
  made from any state of the server, and look at the state after the first \<open>n\<close> of them
  (\<open>n\<close> at least 1). The registry holds exactly one entry for \<open>(u, d)\<close>, the connection
  of the latest call. The close log has grown by the entries for \<open>(u, d)\<close> that the
  state held before, followed by the transport of every earlier call, in order. When
  the transports of the calls are distinct and none was closed or superseded before,
  each earlier call's transport is in the log exactly once and the latest is not in it.
\<close>

theorem C6_register_replaces_and_closes:
  assumes same: "\<forall>call \<in> set calls. fst call = u \<and> device_id (snd call) = d"
      and fresh: "distinct (map (transport \<circ> snd) calls)"
        "set (map (transport \<circ> snd) calls) \<inter>
           set (closed_transports s0 @ map transport (filter (\<lambda>c. device_id c = d) (registry s0 u))) = {}"
      and n: "0 < n" "n \<le> length calls"
      and s: "s = enter_live_all (take n calls) s0"
  shows "filter (\<lambda>c. device_id c = d) (registry s u) = [snd (calls ! (n - 1))]
       \<and> length (filter (\<lambda>c. device_id c = d) (registry s u)) \<le> 1
       \<and> closed_transports s =
           closed_transports s0 @ map transport (filter (\<lambda>c. device_id c = d) (registry s0 u))
             @ map (transport \<circ> snd) (take (n - 1) calls)
       \<and> (\<forall>i < n - 1. count_list (closed_transports s) (transport (snd (calls ! i))) = 1)
       \<and> count_list (closed_transports s) (transport (snd (calls ! (n - 1)))) = 0"
proof -
  let ?f = "transport \<circ> snd"
  let ?pre = "closed_transports s0 @ map transport (filter (\<lambda>c. device_id c = d) (registry s0 u))"
  have ne: "take n calls \<noteq> []" using n by auto
  have same': "\<forall>call \<in> set (take n calls). fst call = u \<and> device_id (snd call) = d"
    using same by (meson in_set_takeD)
  have lst: "last (take n calls) = calls ! (n - 1)"
    using n ne by (simp add: last_conv_nth min_absorb2)
  have bl: "butlast (take n calls) = take (n - 1) calls"
    using n by (simp add: butlast_take)
  note sk = same_key_calls [OF same' ne, of s0, folded s, unfolded lst bl]
  have one: "filter (\<lambda>c. device_id c = d) (registry s u) = [snd (calls ! (n - 1))]"
    using sk by simp
  have log: "closed_transports s = ?pre @ map ?f (take (n - 1) calls)"
    using sk by simp
  have notin: "?f (calls ! i) \<notin> set ?pre" if "i < length calls" for i
  proof -
    have "?f (calls ! i) \<in> set (map ?f calls)" using that by simp
    then show ?thesis using fresh(2) by blast
  qed
  have d_take: "distinct (map ?f (take (n - 1) calls))"
    using fresh(1) by (simp add: distinct_take flip: take_map)
  have c1: "count_list (closed_transports s) (?f (calls ! i)) = 1" if "i < n - 1" for i
  proof -
    have "calls ! i \<in> set (take (n - 1) calls)"
      using that n by (metis diff_le_self in_set_conv_nth length_take min.absorb2 nth_take
          order.trans)
    then have "?f (calls ! i) \<in> set (map ?f (take (n - 1) calls))" by simp
    then have "count_list (map ?f (take (n - 1) calls)) (?f (calls ! i)) = 1"
      using d_take by (rule count_list_distinct [rotated])
    moreover have "count_list ?pre (?f (calls ! i)) = 0"
      using notin [of i] that n by (simp only: count_list_0_iff) simp
    ultimately show ?thesis by (simp only: log count_list_append)
  qed
  have "?f (calls ! (n - 1)) \<notin> set (map ?f (take (n - 1) calls))"
  proof
    assume "?f (calls ! (n - 1)) \<in> set (map ?f (take (n - 1) calls))"
    then obtain j where j: "j < n - 1" "?f (calls ! j) = ?f (calls ! (n - 1))"
      by (auto simp: in_set_conv_nth)
    have eq: "map ?f calls ! j = map ?f calls ! (n - 1)" using j n by simp
    have lj: "j < length (map ?f calls)" and ln: "n - 1 < length (map ?f calls)"
      using j n by simp_all
    have "j = n - 1" using nth_eq_iff_index_eq [OF fresh(1) lj ln] eq by blast
    with j(1) show False by simp
  qed
  moreover have "?f (calls ! (n - 1)) \<notin> set ?pre" using notin [of "n - 1"] n by simp
  ultimately have c0: "count_list (closed_transports s) (?f (calls ! (n - 1))) = 0"
    by (simp only: log count_list_0_iff set_append Un_iff simp_thms)
  show ?thesis using one log c1 c0 by simp
qed

theorem C6_witness:
  "filter (\<lambda>c. device_id c = ''A'')
      (registry (enter_live_all (take 3 example_register_calls) empty_server) ''U1'')
     = [example_conn ''A'' 3]
   \<and> closed_transports (enter_live_all (take 3 example_register_calls) empty_server) = [1, 2]"
proof -
  have same: "\<forall>call \<in> set example_register_calls. fst call = ''U1'' \<and> device_id (snd call) = ''A''"
    by (simp add: example_register_calls_def example_conn_def)
  have d: "distinct (map (transport \<circ> snd) example_register_calls)"
    by (simp add: example_register_calls_def example_conn_def)
  have e: "set (map (transport \<circ> snd) example_register_calls) \<inter>
      set (closed_transports (empty_server :: (string, string, nat) server)
        @ map transport (filter (\<lambda>c. device_id c = ''A'')
            (registry (empty_server :: (string, string, nat) server) ''U1''))) = {}"
    by (simp add: empty_server_def empty_registry_def)
  have n: "0 < (3::nat)" "3 \<le> length example_register_calls"
    by (simp_all add: example_register_calls_def)
  note t = C6_register_replaces_and_closes [OF same d e n refl]
  have "snd (example_register_calls ! (3 - 1)) = example_conn ''A'' 3"
    by (simp add: example_register_calls_def)
  moreover have "map (transport \<circ> snd) (take (3 - 1) example_register_calls) = [1, 2]"
    by (simp add: example_register_calls_def example_conn_def)
  ultimately show ?thesis using t by (simp add: empty_server_def empty_registry_def)
qed

section \<open>Broadcast dispatcher\<close>

lemma register_distinct:
  "distinct (map device_id (reg u)) \<Longrightarrow> distinct (map device_id (snd (register u' c reg) u))"
  by (auto simp: register_def distinct_map_filter)

lemma unregister_distinct:
  "distinct (map device_id (reg u)) \<Longrightarrow> distinct (map device_id (unregister u' d reg u))"
  by (auto simp: unregister_def distinct_map_filter)

lemma enter_live_all_distinct:
  "distinct (map device_id (registry s0 u)) \<Longrightarrow>
   distinct (map device_id (registry (enter_live_all calls s0) u))"
proof (induction calls rule: rev_induct)
  case Nil
  then show ?case by (simp add: enter_live_all_def)
next
  case (snoc call calls)
  then show ?case
    by (simp add: enter_live_all_snoc enter_live_def Let_def register_distinct)
qed

text \<open>
  C7. Let the registry hold each device id at most once for user \<open>u\<close>, as it does from
  the empty registry on and after every \<open>register\<close> and \<open>unregister\<close>. \<open>publish\<close>
  with no excluded origin makes, for the connections of the snapshot \<open>listLive\<close> in its
  order, one attempt each: the send of that event on that connection's transport, with
  the outcome of that send, whatever the outcomes of the others. Each member has exactly
  one attempt and nothing else has any. A connection of a new device id, registered after
  the snapshot, is in the registry but not among the attempts. With an excluded origin
  the attempts are those of the snapshot without that device.
\<close>

theorem C7_publish_one_attempt_per_live_device:
  assumes "distinct (map device_id (listLive u reg))"
  shows "publish send reg u ev None = map (\<lambda>c. (c, send (transport c) ev)) (listLive u reg)
       \<and> (\<forall>c \<in> set (listLive u reg).
             count_list (publish send reg u ev None) (c, send (transport c) ev) = 1
             \<and> count_list (map fst (publish send reg u ev None)) c = 1)
       \<and> (\<forall>c. c \<notin> set (listLive u reg) \<longrightarrow>
             count_list (map fst (publish send reg u ev None)) c = 0)
       \<and> (\<forall>c'. device_id c' \<notin> set (map device_id (listLive u reg)) \<longrightarrow>
             c' \<in> set (listLive u (snd (register u c' reg)))
             \<and> c' \<notin> set (map fst (publish send reg u ev None)))
       \<and> publish send reg u ev (Some origin) =
             map (\<lambda>c. (c, send (transport c) ev))
               (filter (\<lambda>c. device_id c \<noteq> origin) (listLive u reg))
       \<and> (\<forall>u' c. distinct (map device_id (listLive u (snd (register u' c reg)))))
       \<and> (\<forall>u' d. distinct (map device_id (listLive u (unregister u' d reg))))"
proof -
  let ?att = "\<lambda>c. (c, send (transport c) ev)"
  have all: "publish send reg u ev None = map ?att (listLive u reg)"
    by (simp add: publish_def)
  have snap: "map fst (publish send reg u ev None) = listLive u reg"
    by (simp add: all comp_def)
  have dist: "distinct (listLive u reg)" using assms by (simp add: distinct_map)
  have "inj_on ?att (set (listLive u reg))" by (rule inj_onI) simp
  then have dist_att: "distinct (map ?att (listLive u reg))"
    using dist by (simp add: distinct_map)
  have one: "\<forall>c \<in> set (listLive u reg).
             count_list (publish send reg u ev None) (c, send (transport c) ev) = 1
             \<and> count_list (map fst (publish send reg u ev None)) c = 1"
  proof
    fix c assume c: "c \<in> set (listLive u reg)"
    then have "?att c \<in> set (map ?att (listLive u reg))" by simp
    with dist_att have "count_list (map ?att (listLive u reg)) (?att c) = 1"
      by (rule count_list_distinct)
    moreover have "count_list (map fst (publish send reg u ev None)) c = 1"
      unfolding snap using dist c by (rule count_list_distinct)
    ultimately show "count_list (publish send reg u ev None) (c, send (transport c) ev) = 1
             \<and> count_list (map fst (publish send reg u ev None)) c = 1"
      by (simp only: all simp_thms)
  qed
  have none: "\<forall>c. c \<notin> set (listLive u reg) \<longrightarrow>
             count_list (map fst (publish send reg u ev None)) c = 0"
    by (simp add: snap)
  have late: "\<forall>c'. device_id c' \<notin> set (map device_id (listLive u reg)) \<longrightarrow>
             c' \<in> set (listLive u (snd (register u c' reg)))
             \<and> c' \<notin> set (map fst (publish send reg u ev None))"
    unfolding snap by (auto simp: listLive_def register_def)
  have orig: "publish send reg u ev (Some origin) =
             map ?att (filter (\<lambda>c. device_id c \<noteq> origin) (listLive u reg))"
    by (simp add: publish_def)
  have inv1: "\<forall>u' c. distinct (map device_id (listLive u (snd (register u' c reg))))"
    using assms by (simp add: listLive_def register_distinct)
  have inv2: "\<forall>u' d. distinct (map device_id (listLive u (unregister u' d reg)))"
    using assms by (simp add: listLive_def unregister_distinct)
  from all one none late orig inv1 inv2 show ?thesis by (simp only: simp_thms)
qed

theorem C7_witness:
  "publish (\<lambda>t e. t \<noteq> 1) example_registry ''U1'' ''event'' None
     = [(example_conn ''A'' 1, False), (example_conn ''B'' 2, True)]
   \<and> count_list (publish (\<lambda>t e. t \<noteq> 1) example_registry ''U1'' ''event'' None)
        (example_conn ''B'' 2, True) = 1
   \<and> example_conn ''C'' 3
        \<in> set (listLive ''U1'' (snd (register ''U1'' (example_conn ''C'' 3) example_registry)))
   \<and> example_conn ''C'' 3
        \<notin> set (map fst (publish (\<lambda>t e. t \<noteq> 1) example_registry ''U1'' ''event'' None))"
proof -
  have l: "listLive ''U1'' example_registry = [example_conn ''A'' 1, example_conn ''B'' 2]"
    by (simp add: listLive_def example_registry_def enter_live_all_def enter_live_def
        register_def empty_server_def empty_registry_def example_conn_def)
  have d: "distinct (map device_id (listLive ''U1'' example_registry))"
    unfolding listLive_def example_registry_def
    by (rule enter_live_all_distinct) (simp add: empty_server_def empty_registry_def)
  note t = C7_publish_one_attempt_per_live_device [OF d, of "\<lambda>t e. t \<noteq> 1" "''event''"]
  have tr: "transport (example_conn ''A'' 1) = 1" "transport (example_conn ''B'' 2) = 2"
    by (simp_all add: example_conn_def)
  have 1: "publish (\<lambda>t e. t \<noteq> 1) example_registry ''U1'' ''event'' None
     = [(example_conn ''A'' 1, False), (example_conn ''B'' 2, True)]"
    using t [THEN conjunct1] by (simp add: l example_conn_def)
  have "example_conn ''B'' 2 \<in> set (listLive ''U1'' example_registry)"
    by (simp add: l)
  with t [THEN conjunct2, THEN conjunct1]
  have "count_list (publish (\<lambda>t e. t \<noteq> 1) example_registry ''U1'' ''event'' None)
        (example_conn ''B'' 2, transport (example_conn ''B'' 2) \<noteq> 1) = 1"
    by blast
  then have 2: "count_list (publish (\<lambda>t e. t \<noteq> 1) example_registry ''U1'' ''event'' None)
        (example_conn ''B'' 2, True) = 1"
    by (simp add: example_conn_def)
  have "device_id (example_conn ''C'' 3) \<notin> set (map device_id (listLive ''U1'' example_registry))"
    by (simp add: l example_conn_def)
  with t [THEN conjunct2, THEN conjunct2, THEN conjunct2, THEN conjunct1]
  have 3: "example_conn ''C'' 3
        \<in> set (listLive ''U1'' (snd (register ''U1'' (example_conn ''C'' 3) example_registry)))
      \<and> example_conn ''C'' 3
        \<notin> set (map fst (publish (\<lambda>t e. t \<noteq> 1) example_registry ''U1'' ''event'' None))"
    by blast
  from 1 2 3 show ?thesis by (simp only: simp_thms)
qed

end
